theory Spec2Isabelle
  imports Main "HOL-Library.AList"
begin

section \<open>Eviction caches of 04_lru_cache.py\<close>

text \<open>
  The three classes of the module are embedded as records with explicit state passing.
  Python integers are \<open>int\<close>. A \<open>dict\<close> and an \<open>OrderedDict\<close> are association
  lists in insertion order (oldest entry first): \<open>d[k] = v\<close> is \<open>AList.update\<close>, which
  replaces in place or appends, \<open>del d[k]\<close> is \<open>dict_del\<close>, \<open>len\<close> is \<open>length\<close>.
  The exceptions the interpreter can raise in this code are values of \<open>error\<close>; an
  operation that raises returns \<open>Inl\<close>.
\<close>

datatype error = AttributeError | KeyError

subsection \<open>dict and OrderedDict primitives\<close>

definition dict_del :: "'k \<Rightarrow> ('k \<times> 'v) list \<Rightarrow> error + ('k \<times> 'v) list" where
  "dict_del k d = (case map_of d k of None \<Rightarrow> Inl KeyError | Some v \<Rightarrow> Inr (AList.delete k d))"

definition move_to_end :: "'k \<Rightarrow> ('k \<times> 'v) list \<Rightarrow> error + ('k \<times> 'v) list" where
  "move_to_end k d =
     (case map_of d k of None \<Rightarrow> Inl KeyError | Some v \<Rightarrow> Inr (AList.delete k d @ [(k, v)]))"

text \<open>\<open>popitem(last=False)\<close>: the oldest item and the rest.\<close>

definition popitem_first :: "('k \<times> 'v) list \<Rightarrow> error + (('k \<times> 'v) \<times> ('k \<times> 'v) list)" where
  "popitem_first d = (case d of [] \<Rightarrow> Inl KeyError | x # xs \<Rightarrow> Inr (x, xs))"

subsection \<open>ListNode and LRUCache (hash map and doubly linked list)\<close>

text \<open>
  Nodes are objects with identity: they live in a store \<open>lru_heap\<close> from addresses to
  nodes, \<open>lru_fresh\<close> is the next unused address, and \<open>prev\<close>/\<open>next\<close> hold
  \<open>None\<close> or an address. Reading an attribute of \<open>None\<close> raises AttributeError.
\<close>

record ListNode =
  node_key :: int
  node_value :: int
  node_prev :: "nat option"
  node_next :: "nat option"

definition ListNode_init :: "int \<Rightarrow> int \<Rightarrow> ListNode" where
  "ListNode_init k v = \<lparr>node_key = k, node_value = v, node_prev = None, node_next = None\<rparr>"

record LRUCache =
  lru_capacity :: int
  lru_cache :: "(int \<times> nat) list"
  lru_head :: nat
  lru_tail :: nat
  lru_heap :: "nat \<Rightarrow> ListNode"
  lru_fresh :: nat

definition set_prev :: "nat \<Rightarrow> nat option \<Rightarrow> (nat \<Rightarrow> ListNode) \<Rightarrow> (nat \<Rightarrow> ListNode)" where
  "set_prev a p h = h(a := (h a)\<lparr>node_prev := p\<rparr>)"

definition set_next :: "nat \<Rightarrow> nat option \<Rightarrow> (nat \<Rightarrow> ListNode) \<Rightarrow> (nat \<Rightarrow> ListNode)" where
  "set_next a n h = h(a := (h a)\<lparr>node_next := n\<rparr>)"

definition set_value :: "nat \<Rightarrow> int \<Rightarrow> (nat \<Rightarrow> ListNode) \<Rightarrow> (nat \<Rightarrow> ListNode)" where
  "set_value a v h = h(a := (h a)\<lparr>node_value := v\<rparr>)"

text \<open>The constructor: two sentinel nodes at addresses 0 and 1, linked to each other.\<close>

definition LRUCache_init :: "int \<Rightarrow> error + LRUCache" where
  "LRUCache_init c =
     Inr \<lparr>lru_capacity = c, lru_cache = [], lru_head = 0, lru_tail = 1,
          lru_heap = set_prev 1 (Some 0) (set_next 0 (Some 1) (\<lambda>_. ListNode_init 0 0)),
          lru_fresh = 2\<rparr>"

definition add_to_head :: "nat \<Rightarrow> LRUCache \<Rightarrow> error + LRUCache" where
  "add_to_head node s =
     (let h1 = set_prev node (Some (lru_head s)) (lru_heap s);
          h2 = set_next node (node_next (h1 (lru_head s))) h1
      in case node_next (h2 (lru_head s)) of
           None \<Rightarrow> Inl AttributeError
         | Some n \<Rightarrow>
             (let h3 = set_prev n (Some node) h2;
                  h4 = set_next (lru_head s) (Some node) h3
              in Inr (s\<lparr>lru_heap := h4\<rparr>)))"

definition remove_node :: "nat \<Rightarrow> LRUCache \<Rightarrow> error + LRUCache" where
  "remove_node node s =
     (let h = lru_heap s
      in case node_prev (h node) of
           None \<Rightarrow> Inl AttributeError
         | Some p \<Rightarrow>
             (let h1 = set_next p (node_next (h node)) h
              in (case node_next (h1 node) of
                    None \<Rightarrow> Inl AttributeError
                  | Some n \<Rightarrow> Inr (s\<lparr>lru_heap := set_prev n (node_prev (h1 node)) h1\<rparr>))))"

definition move_to_head :: "nat \<Rightarrow> LRUCache \<Rightarrow> error + LRUCache" where
  "move_to_head node s =
     (case remove_node node s of Inl e \<Rightarrow> Inl e | Inr s1 \<Rightarrow> add_to_head node s1)"

definition pop_tail :: "LRUCache \<Rightarrow> error + (nat \<times> LRUCache)" where
  "pop_tail s =
     (case node_prev (lru_heap s (lru_tail s)) of
        None \<Rightarrow> Inl AttributeError
      | Some lru \<Rightarrow> (case remove_node lru s of Inl e \<Rightarrow> Inl e | Inr s1 \<Rightarrow> Inr (lru, s1)))"

definition LRUCache_get :: "int \<Rightarrow> LRUCache \<Rightarrow> error + (int \<times> LRUCache)" where
  "LRUCache_get key s =
     (case map_of (lru_cache s) key of
        None \<Rightarrow> Inr (- 1, s)
      | Some node \<Rightarrow>
          (case move_to_head node s of
             Inl e \<Rightarrow> Inl e
           | Inr s1 \<Rightarrow> Inr (node_value (lru_heap s1 node), s1)))"

definition LRUCache_put :: "int \<Rightarrow> int \<Rightarrow> LRUCache \<Rightarrow> error + LRUCache" where
  "LRUCache_put key value s =
     (case map_of (lru_cache s) key of
        Some node \<Rightarrow> move_to_head node (s\<lparr>lru_heap := set_value node value (lru_heap s)\<rparr>)
      | None \<Rightarrow>
          (case (if int (length (lru_cache s)) \<ge> lru_capacity s
                 then (case pop_tail s of
                         Inl e \<Rightarrow> Inl e
                       | Inr (lru, s1) \<Rightarrow>
                           (case dict_del (node_key (lru_heap s1 lru)) (lru_cache s1) of
                              Inl e \<Rightarrow> Inl e
                            | Inr c \<Rightarrow> Inr (s1\<lparr>lru_cache := c\<rparr>)))
                 else Inr s) of
             Inl e \<Rightarrow> Inl e
           | Inr s2 \<Rightarrow>
               (let new_node = lru_fresh s2;
                    s3 = s2\<lparr>lru_heap := (lru_heap s2)(new_node := ListNode_init key value),
                            lru_fresh := Suc new_node\<rparr>;
                    s4 = s3\<lparr>lru_cache := AList.update key new_node (lru_cache s3)\<rparr>
                in add_to_head new_node s4)))"

subsection \<open>LRUCacheSimple (OrderedDict)\<close>

record LRUCacheSimple =
  simple_capacity :: int
  simple_cache :: "(int \<times> int) list"

definition LRUCacheSimple_init :: "int \<Rightarrow> error + LRUCacheSimple" where
  "LRUCacheSimple_init c = Inr \<lparr>simple_capacity = c, simple_cache = []\<rparr>"

definition LRUCacheSimple_get :: "int \<Rightarrow> LRUCacheSimple \<Rightarrow> error + (int \<times> LRUCacheSimple)" where
  "LRUCacheSimple_get key s =
     (if map_of (simple_cache s) key = None then Inr (- 1, s)
      else (case move_to_end key (simple_cache s) of
              Inl e \<Rightarrow> Inl e
            | Inr d \<Rightarrow>
                (case map_of d key of
                   None \<Rightarrow> Inl KeyError
                 | Some v \<Rightarrow> Inr (v, s\<lparr>simple_cache := d\<rparr>))))"

definition LRUCacheSimple_put :: "int \<Rightarrow> int \<Rightarrow> LRUCacheSimple \<Rightarrow> error + LRUCacheSimple" where
  "LRUCacheSimple_put key value s =
     (case (if map_of (simple_cache s) key \<noteq> None then move_to_end key (simple_cache s)
            else Inr (simple_cache s)) of
        Inl e \<Rightarrow> Inl e
      | Inr d \<Rightarrow>
          (let d1 = AList.update key value d
           in if int (length d1) > simple_capacity s
              then (case popitem_first d1 of
                      Inl e \<Rightarrow> Inl e
                    | Inr (_, d2) \<Rightarrow> Inr (s\<lparr>simple_cache := d2\<rparr>))
              else Inr (s\<lparr>simple_cache := d1\<rparr>)))"

subsection \<open>LFUCache\<close>

text \<open>
  \<open>freq_to_keys\<close> maps a frequency to an OrderedDict whose values are all \<open>None\<close>
  (here \<open>unit\<close>); its keys are in insertion order, oldest first.
\<close>

record LFUCache =
  lfu_capacity :: int
  min_freq :: int
  key_to_val :: "(int \<times> int) list"
  key_to_freq :: "(int \<times> int) list"
  freq_to_keys :: "(int \<times> (int \<times> unit) list) list"

definition LFUCache_init :: "int \<Rightarrow> error + LFUCache" where
  "LFUCache_init c =
     Inr \<lparr>lfu_capacity = c, min_freq = 0, key_to_val = [], key_to_freq = [], freq_to_keys = []\<rparr>"

definition update_freq :: "int \<Rightarrow> LFUCache \<Rightarrow> error + LFUCache" where
  "update_freq key s =
     (case map_of (key_to_freq s) key of
        None \<Rightarrow> Inl KeyError
      | Some freq \<Rightarrow>
          (let s1 = s\<lparr>key_to_freq := AList.update key (freq + 1) (key_to_freq s)\<rparr>
           in (case map_of (freq_to_keys s1) freq of
                 None \<Rightarrow> Inl KeyError
               | Some bucket \<Rightarrow>
                   (case dict_del key bucket of
                      Inl e \<Rightarrow> Inl e
                    | Inr bucket1 \<Rightarrow>
                        (let s2 = s1\<lparr>freq_to_keys := AList.update freq bucket1 (freq_to_keys s1)\<rparr>;
                             s3 = (if bucket1 = [] \<and> min_freq s2 = freq
                                   then s2\<lparr>min_freq := freq + 1\<rparr> else s2);
                             s4 = (if map_of (freq_to_keys s3) (freq + 1) = None
                                   then s3\<lparr>freq_to_keys :=
                                             AList.update (freq + 1) [] (freq_to_keys s3)\<rparr>
                                   else s3)
                         in (case map_of (freq_to_keys s4) (freq + 1) of
                               None \<Rightarrow> Inl KeyError
                             | Some b \<Rightarrow>
                                 Inr (s4\<lparr>freq_to_keys :=
                                            AList.update (freq + 1) (AList.update key () b)
                                              (freq_to_keys s4)\<rparr>)))))))"

definition LFUCache_get :: "int \<Rightarrow> LFUCache \<Rightarrow> error + (int \<times> LFUCache)" where
  "LFUCache_get key s =
     (if map_of (key_to_val s) key = None then Inr (- 1, s)
      else (case update_freq key s of
              Inl e \<Rightarrow> Inl e
            | Inr s1 \<Rightarrow>
                (case map_of (key_to_val s1) key of
                   None \<Rightarrow> Inl KeyError
                 | Some v \<Rightarrow> Inr (v, s1))))"

definition LFUCache_put :: "int \<Rightarrow> int \<Rightarrow> LFUCache \<Rightarrow> error + LFUCache" where
  "LFUCache_put key value s =
     (if lfu_capacity s \<le> 0 then Inr s
      else if map_of (key_to_val s) key \<noteq> None
      then update_freq key (s\<lparr>key_to_val := AList.update key value (key_to_val s)\<rparr>)
      else
        (case (if int (length (key_to_val s)) \<ge> lfu_capacity s
               then (case map_of (freq_to_keys s) (min_freq s) of
                       None \<Rightarrow> Inl KeyError
                     | Some bucket \<Rightarrow>
                         (case popitem_first bucket of
                            Inl e \<Rightarrow> Inl e
                          | Inr ((evict_key, _), bucket1) \<Rightarrow>
                              (let s1 = s\<lparr>freq_to_keys :=
                                            AList.update (min_freq s) bucket1 (freq_to_keys s)\<rparr>
                               in (case dict_del evict_key (key_to_val s1) of
                                     Inl e \<Rightarrow> Inl e
                                   | Inr kv \<Rightarrow>
                                       (case dict_del evict_key (key_to_freq s1) of
                                          Inl e \<Rightarrow> Inl e
                                        | Inr kf \<Rightarrow>
                                            Inr (s1\<lparr>key_to_val := kv, key_to_freq := kf\<rparr>))))))
               else Inr s) of
           Inl e \<Rightarrow> Inl e
         | Inr s2 \<Rightarrow>
             (let s3 = s2\<lparr>key_to_val := AList.update key value (key_to_val s2),
                          key_to_freq := AList.update key 1 (key_to_freq s2),
                          min_freq := 1\<rparr>;
                  s4 = (if map_of (freq_to_keys s3) 1 = None
                        then s3\<lparr>freq_to_keys := AList.update 1 [] (freq_to_keys s3)\<rparr>
                        else s3)
              in (case map_of (freq_to_keys s4) 1 of
                    None \<Rightarrow> Inl KeyError
                  | Some b \<Rightarrow>
                      Inr (s4\<lparr>freq_to_keys :=
                                 AList.update 1 (AList.update key () b) (freq_to_keys s4)\<rparr>)))))"

subsection \<open>Call sequences\<close>

text \<open>
  A caller's program is a list of calls. Running it returns the results of the
  \<open>get\<close> calls in order and the final cache, or the first exception raised.
\<close>

datatype op = Get int | Put int int

fun op_key :: "op \<Rightarrow> int" where
  "op_key (Get k) = k"
| "op_key (Put k v) = k"

fun LRUCache_run :: "op list \<Rightarrow> LRUCache \<Rightarrow> error + (int list \<times> LRUCache)" where
  "LRUCache_run [] s = Inr ([], s)"
| "LRUCache_run (Get k # ops) s =
     (case LRUCache_get k s of
        Inl e \<Rightarrow> Inl e
      | Inr (v, s1) \<Rightarrow>
          (case LRUCache_run ops s1 of Inl e \<Rightarrow> Inl e | Inr (vs, s2) \<Rightarrow> Inr (v # vs, s2)))"
| "LRUCache_run (Put k v # ops) s =
     (case LRUCache_put k v s of Inl e \<Rightarrow> Inl e | Inr s1 \<Rightarrow> LRUCache_run ops s1)"

fun LRUCacheSimple_run :: "op list \<Rightarrow> LRUCacheSimple \<Rightarrow> error + (int list \<times> LRUCacheSimple)" where
  "LRUCacheSimple_run [] s = Inr ([], s)"
| "LRUCacheSimple_run (Get k # ops) s =
     (case LRUCacheSimple_get k s of
        Inl e \<Rightarrow> Inl e
      | Inr (v, s1) \<Rightarrow>
          (case LRUCacheSimple_run ops s1 of Inl e \<Rightarrow> Inl e | Inr (vs, s2) \<Rightarrow> Inr (v # vs, s2)))"
| "LRUCacheSimple_run (Put k v # ops) s =
     (case LRUCacheSimple_put k v s of Inl e \<Rightarrow> Inl e | Inr s1 \<Rightarrow> LRUCacheSimple_run ops s1)"

fun LFUCache_run :: "op list \<Rightarrow> LFUCache \<Rightarrow> error + (int list \<times> LFUCache)" where
  "LFUCache_run [] s = Inr ([], s)"
| "LFUCache_run (Get k # ops) s =
     (case LFUCache_get k s of
        Inl e \<Rightarrow> Inl e
      | Inr (v, s1) \<Rightarrow>
          (case LFUCache_run ops s1 of Inl e \<Rightarrow> Inl e | Inr (vs, s2) \<Rightarrow> Inr (v # vs, s2)))"
| "LFUCache_run (Put k v # ops) s =
     (case LFUCache_put k v s of Inl e \<Rightarrow> Inl e | Inr s1 \<Rightarrow> LFUCache_run ops s1)"

text \<open>A program run on a freshly constructed cache of capacity \<open>c\<close>.\<close>

definition LRUCache_prog :: "int \<Rightarrow> op list \<Rightarrow> error + (int list \<times> LRUCache)" where
  "LRUCache_prog c ops = (case LRUCache_init c of Inl e \<Rightarrow> Inl e | Inr s \<Rightarrow> LRUCache_run ops s)"

definition LRUCacheSimple_prog :: "int \<Rightarrow> op list \<Rightarrow> error + (int list \<times> LRUCacheSimple)" where
  "LRUCacheSimple_prog c ops =
     (case LRUCacheSimple_init c of Inl e \<Rightarrow> Inl e | Inr s \<Rightarrow> LRUCacheSimple_run ops s)"

definition LFUCache_prog :: "int \<Rightarrow> op list \<Rightarrow> error + (int list \<times> LFUCache)" where
  "LFUCache_prog c ops = (case LFUCache_init c of Inl e \<Rightarrow> Inl e | Inr s \<Rightarrow> LFUCache_run ops s)"

section \<open>Abstraction of the linked list\<close>

text \<open>
  \<open>chain h p as t\<close>: in store \<open>h\<close> the nodes \<open>as\<close> are linked in this order
  between \<open>p\<close> and \<open>t\<close>, by \<open>next\<close> forwards and by \<open>prev\<close> backwards.
  \<open>lru_inv s as\<close> is the well-formedness of an LRUCache whose list holds the nodes
  \<open>as\<close>, most recently used first; \<open>lru_sim\<close> relates it to an LRUCacheSimple with
  the same entries, which keeps them oldest first.
\<close>

fun chain :: "(nat \<Rightarrow> ListNode) \<Rightarrow> nat \<Rightarrow> nat list \<Rightarrow> nat \<Rightarrow> bool" where
  "chain h p [] t \<longleftrightarrow> node_next (h p) = Some t \<and> node_prev (h t) = Some p"
| "chain h p (a # as) t \<longleftrightarrow> node_next (h p) = Some a \<and> node_prev (h a) = Some p \<and> chain h a as t"

definition same_kv :: "(nat \<Rightarrow> ListNode) \<Rightarrow> (nat \<Rightarrow> ListNode) \<Rightarrow> bool" where
  "same_kv h h' \<longleftrightarrow> (\<forall>b. node_key (h' b) = node_key (h b) \<and> node_value (h' b) = node_value (h b))"

definition kv :: "(nat \<Rightarrow> ListNode) \<Rightarrow> nat \<Rightarrow> int \<times> int" where
  "kv h a = (node_key (h a), node_value (h a))"

definition lru_inv :: "LRUCache \<Rightarrow> nat list \<Rightarrow> bool" where
  "lru_inv s as \<longleftrightarrow>
     chain (lru_heap s) (lru_head s) as (lru_tail s) \<and>
     distinct (lru_head s # as @ [lru_tail s]) \<and>
     (\<forall>a \<in> set (lru_head s # as @ [lru_tail s]). a < lru_fresh s) \<and>
     distinct (map fst (lru_cache s)) \<and>
     set (lru_cache s) = (\<lambda>a. (node_key (lru_heap s a), a)) ` set as"

definition lru_sim :: "LRUCache \<Rightarrow> LRUCacheSimple \<Rightarrow> nat list \<Rightarrow> bool" where
  "lru_sim s t as \<longleftrightarrow>
     lru_inv s as \<and> simple_cache t = rev (map (kv (lru_heap s)) as) \<and>
     simple_capacity t = lru_capacity s \<and> int (length as) \<le> lru_capacity s"

definition simple_put_list :: "int \<Rightarrow> int \<Rightarrow> int \<Rightarrow> (int \<times> int) list \<Rightarrow> (int \<times> int) list" where
  "simple_put_list c k v d =
     (if int (length (AList.delete k d @ [(k, v)])) > c then tl (AList.delete k d @ [(k, v)])
      else AList.delete k d @ [(k, v)])"

section \<open>Evaluation of the LRUCache operations\<close>

lemmas lru_defs = LRUCache_prog_def LRUCache_init_def LRUCache_put_def LRUCache_get_def
  move_to_head_def remove_node_def add_to_head_def pop_tail_def set_prev_def set_next_def
  set_value_def ListNode_init_def dict_del_def Let_def

section \<open>Construction\<close>

text \<open>
  Claim C7, as stated: constructing a cache with a negative capacity fails with
  InvalidCapacity and returns no cache. The constructors have no check: at capacity
  \<open>- 1\<close> each of them returns a cache whose capacity field is \<open>- 1\<close>.
\<close>

theorem negative_capacity_accepted_counterexample:
  "map_sum id lru_capacity (LRUCache_init (- 1)) = Inr (- 1) \<and>
   map_sum id simple_capacity (LRUCacheSimple_init (- 1)) = Inr (- 1) \<and>
   map_sum id lfu_capacity (LFUCache_init (- 1)) = Inr (- 1)"
  by (simp add: LRUCache_init_def LRUCacheSimple_init_def LFUCache_init_def)

text \<open>
  Claim C7, amended: for every negative capacity argument, constructing a cache (any of
  the three classes) succeeds and returns an empty cache whose capacity field is the
  argument, unchanged.
\<close>

theorem negative_capacity_constructs:
  "c < 0 \<Longrightarrow>
     (\<exists>s. LRUCache_init c = Inr s \<and> lru_capacity s = c \<and> lru_cache s = []) \<and>
     LRUCacheSimple_init c = Inr \<lparr>simple_capacity = c, simple_cache = []\<rparr> \<and>
     LFUCache_init c =
       Inr \<lparr>lfu_capacity = c, min_freq = 0, key_to_val = [], key_to_freq = [], freq_to_keys = []\<rparr>"
  by (simp add: LRUCache_init_def LRUCacheSimple_init_def LFUCache_init_def)

theorem negative_capacity_constructs_witness:
  "(- 3 :: int) < 0 \<and>
     (\<exists>s. LRUCache_init (- 3) = Inr s \<and> lru_capacity s = - 3 \<and> lru_cache s = []) \<and>
     LRUCacheSimple_init (- 3) = Inr \<lparr>simple_capacity = - 3, simple_cache = []\<rparr> \<and>
     LFUCache_init (- 3) =
       Inr \<lparr>lfu_capacity = - 3, min_freq = 0, key_to_val = [], key_to_freq = [], freq_to_keys = []\<rparr>"
  using negative_capacity_constructs [of "- 3"] by simp

section \<open>Capacity zero\<close>

text \<open>
  Claim C2: on a cache of capacity 0, \<open>put\<close> is a no-op that succeeds and the \<open>get\<close>
  that follows is a miss. LFUCache (which has a guard) and LRUCacheSimple behave so.
  LRUCache does not: with an empty list, \<open>_pop_tail\<close> takes the head sentinel for the
  least recently used node, and \<open>_remove_node\<close> reads \<open>.next\<close> of its \<open>prev\<close>,
  which is \<open>None\<close>.
\<close>

theorem zero_capacity_put_get:
  "LRUCache_prog 0 [Put k v, Get k] = Inl AttributeError \<and>
   map_sum id fst (LRUCacheSimple_prog 0 [Put k v, Get k]) = Inr [- 1] \<and>
   map_sum id fst (LFUCache_prog 0 [Put k v, Get k]) = Inr [- 1]"
  by (simp add: lru_defs LRUCacheSimple_prog_def LRUCacheSimple_init_def LRUCacheSimple_put_def
      LRUCacheSimple_get_def popitem_first_def LFUCache_prog_def LFUCache_init_def
      LFUCache_put_def LFUCache_get_def)

text \<open>
  Claim C6: \<open>get\<close> and \<open>put\<close> never raise on a cache of non-negative capacity. On
  an LRUCache of capacity 0 every program that starts with a \<open>put\<close> raises
  AttributeError at that call.
\<close>

theorem zero_capacity_LRUCache_put_raises:
  "LRUCache_prog 0 (Put k v # ops) = Inl AttributeError"
  by (simp add: lru_defs)

section \<open>The linked list operations\<close>

lemma set_prev_simps [simp]:
  "node_next (set_prev a p h b) = node_next (h b)"
  "node_prev (set_prev a p h b) = (if b = a then p else node_prev (h b))"
  "node_key (set_prev a p h b) = node_key (h b)"
  "node_value (set_prev a p h b) = node_value (h b)"
  by (simp_all add: set_prev_def)

lemma set_next_simps [simp]:
  "node_prev (set_next a n h b) = node_prev (h b)"
  "node_next (set_next a n h b) = (if b = a then n else node_next (h b))"
  "node_key (set_next a n h b) = node_key (h b)"
  "node_value (set_next a n h b) = node_value (h b)"
  by (simp_all add: set_next_def)

lemma set_value_simps [simp]:
  "node_prev (set_value a v h b) = node_prev (h b)"
  "node_next (set_value a v h b) = node_next (h b)"
  "node_key (set_value a v h b) = node_key (h b)"
  "node_value (set_value a v h b) = (if b = a then v else node_value (h b))"
  by (simp_all add: set_value_def)

lemma chain_append:
  "chain h p (xs @ a # ys) t \<longleftrightarrow> chain h p xs a \<and> chain h a ys t"
  by (induction xs arbitrary: p) auto

lemma chain_frame:
  "\<forall>x \<in> set (p # as). node_next (h' x) = node_next (h x) \<Longrightarrow>
   \<forall>x \<in> set (as @ [t]). node_prev (h' x) = node_prev (h x) \<Longrightarrow>
   chain h' p as t = chain h p as t"
  by (induction as arbitrary: p) auto

lemma chain_last:
  "chain h p xs a \<Longrightarrow> node_prev (h a) = Some (last (p # xs)) \<and> node_next (h (last (p # xs))) = Some a"
  by (induction xs arbitrary: p) auto

lemma chain_first:
  "chain h a ys t \<Longrightarrow> node_next (h a) = Some (hd (ys @ [t])) \<and> node_prev (h (hd (ys @ [t]))) = Some a"
  by (cases ys) auto

lemma chain_retarget:
  "chain h p xs a \<Longrightarrow> n \<notin> set xs \<Longrightarrow> distinct (p # xs) \<Longrightarrow>
   chain (set_prev n (Some (last (p # xs))) (set_next (last (p # xs)) (Some n) h)) p xs n"
proof (induction xs arbitrary: p)
  case Nil
  then show ?case by simp
next
  case (Cons x xs)
  define l where "l = last (x # xs)"
  define h' where "h' = set_prev n (Some l) (set_next l (Some n) h)"
  have ih: "chain h' x xs n"
    using Cons.IH[of x] Cons.prems unfolding h'_def l_def by simp
  have pl: "p \<noteq> l" using Cons.prems(3) unfolding l_def
    by (metis distinct.simps(2) last_in_set list.distinct(1))
  have xn: "x \<noteq> n" using Cons.prems(2) by simp
  have 1: "node_next (h' p) = Some x"
    using Cons.prems(1) pl by (simp add: h'_def)
  have 2: "node_prev (h' x) = Some p"
    using Cons.prems(1) xn by (simp add: h'_def)
  have "last (p # x # xs) = l" by (simp add: l_def)
  then show ?case using ih 1 2 unfolding h'_def by simp
qed

text \<open>Unlinking a node in the middle of a chain.\<close>

lemma chain_unlink:
  assumes ch: "chain h p (xs @ a # ys) t"
    and d: "distinct (p # xs @ a # ys @ [t])"
  shows "\<exists>q n. node_prev (h a) = Some q \<and> node_next (h a) = Some n \<and> q \<noteq> a \<and>
           chain (set_prev n (Some q) (set_next q (Some n) h)) p (xs @ ys) t"
proof -
  define q where "q = last (p # xs)"
  define n where "n = hd (ys @ [t])"
  define h' where "h' = set_prev n (Some q) (set_next q (Some n) h)"
  from ch have c1: "chain h p xs a" and c2: "chain h a ys t"
    by (simp_all add: chain_append)
  have pq: "node_prev (h a) = Some q" using chain_last[OF c1] by (simp add: q_def)
  have nn: "node_next (h a) = Some n" using chain_first[OF c2] by (simp add: n_def)
  have qin: "q \<in> set (p # xs)" unfolding q_def by (rule last_in_set) simp
  have nin: "n \<in> set (ys @ [t])" unfolding n_def by (rule hd_in_set) simp
  have nxs: "n \<notin> set xs" using nin d by auto
  have r: "chain h' p xs n"
    using chain_retarget[OF c1 nxs] d unfolding h'_def q_def by simp
  have "chain h' p (xs @ ys) t"
  proof (cases ys)
    case Nil
    then show ?thesis using r by (simp add: n_def)
  next
    case (Cons y ys')
    then have ny: "n = y" by (simp add: n_def)
    have c3: "chain h y ys' t" using c2 Cons by simp
    have "chain h' y ys' t = chain h y ys' t"
      unfolding h'_def
    proof (rule chain_frame)
      show "\<forall>x\<in>set (y # ys'). node_next (set_prev n (Some q) (set_next q (Some n) h) x) = node_next (h x)"
        using qin d Cons by auto
      show "\<forall>x\<in>set (ys' @ [t]). node_prev (set_prev n (Some q) (set_next q (Some n) h) x) = node_prev (h x)"
        using ny d Cons by auto
    qed
    then show ?thesis using r c3 Cons ny by (simp add: chain_append)
  qed
  moreover have "q \<noteq> a" using qin d by auto
  ultimately show ?thesis using pq nn unfolding h'_def by blast
qed

text \<open>Linking a fresh node right after the head.\<close>

lemma chain_link:
  assumes ch: "chain h p as t"
    and d: "distinct (p # as @ [t])"
    and a: "a \<notin> set (p # as @ [t])"
  shows "\<exists>n. node_next (h p) = Some n \<and>
           chain (set_next p (Some a) (set_prev n (Some a) (set_next a (Some n) (set_prev a (Some p) h)))) p (a # as) t"
proof -
  define n where "n = hd (as @ [t])"
  have nn: "node_next (h p) = Some n" and pn: "node_prev (h n) = Some p"
    using chain_first[OF ch] by (simp_all add: n_def)
  define h' where "h' = set_next p (Some a) (set_prev n (Some a) (set_next a (Some n) (set_prev a (Some p) h)))"
  have nin: "n \<in> set (as @ [t])" unfolding n_def by (rule hd_in_set) simp
  have an: "a \<noteq> n" and ap: "a \<noteq> p" and np: "n \<noteq> p" using a nin d by auto
  have "chain h' a as t"
  proof (cases as)
    case Nil
    then show ?thesis using an ap np by (simp add: h'_def n_def)
  next
    case (Cons y ys')
    then have ny: "n = y" by (simp add: n_def)
    have c3: "chain h y ys' t" using ch Cons by simp
    have "chain h' y ys' t = chain h y ys' t"
      unfolding h'_def
      by (rule chain_frame) (use a d Cons ny in auto)
    then show ?thesis using c3 Cons ny an ap np by (simp add: h'_def)
  qed
  then have "chain h' p (a # as) t" using ap an by (simp add: h'_def)
  then show ?thesis using nn unfolding h'_def by blast
qed

lemma remove_node_ok:
  assumes ch: "chain (lru_heap s) (lru_head s) (xs @ a # ys) (lru_tail s)"
    and d: "distinct (lru_head s # xs @ a # ys @ [lru_tail s])"
  shows "\<exists>h'. remove_node a s = Inr (s\<lparr>lru_heap := h'\<rparr>) \<and>
           chain h' (lru_head s) (xs @ ys) (lru_tail s) \<and> same_kv (lru_heap s) h'"
proof -
  from chain_unlink[OF ch d] obtain q n where
    q: "node_prev (lru_heap s a) = Some q" and n: "node_next (lru_heap s a) = Some n"
    and qa: "q \<noteq> a"
    and c: "chain (set_prev n (Some q) (set_next q (Some n) (lru_heap s))) (lru_head s) (xs @ ys) (lru_tail s)"
    by blast
  have "remove_node a s = Inr (s\<lparr>lru_heap := set_prev n (Some q) (set_next q (Some n) (lru_heap s))\<rparr>)"
    using q n qa by (simp add: remove_node_def Let_def)
  moreover have "same_kv (lru_heap s) (set_prev n (Some q) (set_next q (Some n) (lru_heap s)))"
    by (simp add: same_kv_def)
  ultimately show ?thesis using c by blast
qed

lemma add_to_head_ok:
  assumes ch: "chain (lru_heap s) (lru_head s) as (lru_tail s)"
    and d: "distinct (lru_head s # as @ [lru_tail s])"
    and a: "a \<notin> set (lru_head s # as @ [lru_tail s])"
  shows "\<exists>h'. add_to_head a s = Inr (s\<lparr>lru_heap := h'\<rparr>) \<and>
           chain h' (lru_head s) (a # as) (lru_tail s) \<and> same_kv (lru_heap s) h'"
proof -
  from chain_link[OF ch d a] obtain n where
    n: "node_next (lru_heap s (lru_head s)) = Some n"
    and c: "chain (set_next (lru_head s) (Some a) (set_prev n (Some a)
              (set_next a (Some n) (set_prev a (Some (lru_head s)) (lru_heap s)))))
              (lru_head s) (a # as) (lru_tail s)"
    by blast
  have ah: "a \<noteq> lru_head s" using a by auto
  have "add_to_head a s = Inr (s\<lparr>lru_heap := set_next (lru_head s) (Some a) (set_prev n (Some a)
              (set_next a (Some n) (set_prev a (Some (lru_head s)) (lru_heap s))))\<rparr>)"
    using n ah by (simp add: add_to_head_def Let_def)
  moreover have "same_kv (lru_heap s) (set_next (lru_head s) (Some a) (set_prev n (Some a)
              (set_next a (Some n) (set_prev a (Some (lru_head s)) (lru_heap s)))))"
    by (simp add: same_kv_def)
  ultimately show ?thesis using c by blast
qed

lemma same_kv_trans: "same_kv h h1 \<Longrightarrow> same_kv h1 h2 \<Longrightarrow> same_kv h h2"
  by (simp add: same_kv_def)

lemma move_to_head_ok:
  assumes ch: "chain (lru_heap s) (lru_head s) (xs @ a # ys) (lru_tail s)"
    and d: "distinct (lru_head s # xs @ a # ys @ [lru_tail s])"
  shows "\<exists>h'. move_to_head a s = Inr (s\<lparr>lru_heap := h'\<rparr>) \<and>
           chain h' (lru_head s) (a # xs @ ys) (lru_tail s) \<and> same_kv (lru_heap s) h'"
proof -
  from remove_node_ok[OF ch d] obtain h1 where
    r: "remove_node a s = Inr (s\<lparr>lru_heap := h1\<rparr>)"
    and c1: "chain h1 (lru_head s) (xs @ ys) (lru_tail s)" and k1: "same_kv (lru_heap s) h1"
    by blast
  let ?s1 = "s\<lparr>lru_heap := h1\<rparr>"
  have "\<exists>h'. add_to_head a ?s1 = Inr (?s1\<lparr>lru_heap := h'\<rparr>) \<and>
           chain h' (lru_head ?s1) (a # xs @ ys) (lru_tail ?s1) \<and> same_kv (lru_heap ?s1) h'"
    by (rule add_to_head_ok) (use c1 d in auto)
  then obtain h2 where a2: "add_to_head a ?s1 = Inr (?s1\<lparr>lru_heap := h2\<rparr>)"
    and c2: "chain h2 (lru_head s) (a # xs @ ys) (lru_tail s)" and k2: "same_kv h1 h2"
    by auto
  have "move_to_head a s = Inr (s\<lparr>lru_heap := h2\<rparr>)"
    using r a2 by (simp add: move_to_head_def)
  then show ?thesis using c2 same_kv_trans[OF k1 k2] by blast
qed

lemma update_absent: "k \<notin> fst ` set al \<Longrightarrow> AList.update k v al = al @ [(k, v)]"
  by (induction al) auto

lemma update_last_entry:
  "k \<notin> fst ` set al \<Longrightarrow> AList.update k v (al @ [(k, w)]) = al @ [(k, v)]"
  by (induction al) auto

lemma delete_split:
  "distinct (map fst (xs @ (k, v) # ys)) \<Longrightarrow> AList.delete k (xs @ (k, v) # ys) = xs @ ys"
proof -
  assume d: "distinct (map fst (xs @ (k, v) # ys))"
  have "AList.delete k xs = xs" using d by (intro delete_id) auto
  moreover have "AList.delete k ys = ys" using d by (intro delete_id) auto
  ultimately show ?thesis by (simp add: AList.delete_eq)
qed

lemma same_kv_kv: "same_kv h h' \<Longrightarrow> kv h' = kv h"
  by (auto simp: same_kv_def kv_def)

lemma inv_lookup:
  "lru_inv s as \<Longrightarrow> map_of (lru_cache s) k = Some a \<longleftrightarrow> a \<in> set as \<and> node_key (lru_heap s a) = k"
  by (auto simp: lru_inv_def)

lemma inv_lookup_None:
  "lru_inv s as \<Longrightarrow> map_of (lru_cache s) k = None \<longleftrightarrow> k \<notin> fst ` set (map (kv (lru_heap s)) as)"
  by (force simp: lru_inv_def map_of_eq_None_iff kv_def image_iff)

lemma inv_keys_distinct:
  assumes "lru_inv s as"
  shows "distinct (map fst (map (kv (lru_heap s)) as))"
proof -
  have d: "distinct as" using assms by (simp add: lru_inv_def)
  have "inj_on (\<lambda>a. node_key (lru_heap s a)) (set as)"
  proof (rule inj_onI)
    fix a b assume a: "a \<in> set as" and b: "b \<in> set as"
      and e: "node_key (lru_heap s a) = node_key (lru_heap s b)"
    have "map_of (lru_cache s) (node_key (lru_heap s a)) = Some a"
      using inv_lookup[OF assms] a by simp
    moreover have "map_of (lru_cache s) (node_key (lru_heap s a)) = Some b"
      using inv_lookup[OF assms] b e by simp
    ultimately show "a = b" by simp
  qed
  then show ?thesis using d by (simp add: distinct_map kv_def comp_def)
qed

lemma inv_length:
  assumes "lru_inv s as"
  shows "length (lru_cache s) = length as"
proof -
  have "distinct (lru_cache s)" using assms by (auto simp: lru_inv_def distinct_map)
  then have "length (lru_cache s) = card (set (lru_cache s))" by (simp add: distinct_card)
  also have "\<dots> = card ((\<lambda>a. (node_key (lru_heap s a), a)) ` set as)"
    using assms by (simp add: lru_inv_def)
  also have "\<dots> = card (set as)" by (rule card_image) (auto simp: inj_on_def)
  also have "\<dots> = length as" using assms by (simp add: lru_inv_def distinct_card)
  finally show ?thesis .
qed

lemma map_of_snoc: "k \<notin> fst ` set al \<Longrightarrow> map_of (al @ [(k, v)]) k = Some v"
  by (induction al) auto

lemma map_of_split:
  "distinct (map fst (xs @ (k, v) # ys)) \<Longrightarrow> map_of (xs @ (k, v) # ys) k = Some v"
  by (induction xs) auto

lemma move_to_end_split:
  "distinct (map fst (xs @ (k, v) # ys)) \<Longrightarrow>
   move_to_end k (xs @ (k, v) # ys) = Inr (xs @ ys @ [(k, v)])"
proof -
  assume d: "distinct (map fst (xs @ (k, v) # ys))"
  have m: "map_of (xs @ (k, v) # ys) k = Some v" by (rule map_of_split[OF d])
  show ?thesis unfolding move_to_end_def m using delete_split[OF d] by simp
qed

lemma distinct_keys_rev: "distinct (map fst (rev al)) = distinct (map fst al)"
  by (simp only: rev_map[symmetric] distinct_rev)

lemma inv_move:
  assumes inv: "lru_inv s (xs @ a # ys)"
    and ch: "chain h' (lru_head s) (a # xs @ ys) (lru_tail s)"
    and k: "\<forall>b. node_key (h' b) = node_key (lru_heap s b)"
  shows "lru_inv (s\<lparr>lru_heap := h'\<rparr>) (a # xs @ ys)"
  using inv ch k unfolding lru_inv_def by (auto simp: image_iff)

lemma sim_get:
  assumes sim: "lru_sim s t as"
  shows "\<exists>v s' t' as'. LRUCache_get k s = Inr (v, s') \<and> LRUCacheSimple_get k t = Inr (v, t') \<and>
           lru_sim s' t' as' \<and> lru_capacity s' = lru_capacity s"
proof (cases "map_of (lru_cache s) k")
  case None
  have inv: "lru_inv s as" using sim by (simp add: lru_sim_def)
  have "k \<notin> fst ` set (simple_cache t)"
    using inv_lookup_None[OF inv, of k] None sim by (simp add: lru_sim_def)
  then have "map_of (simple_cache t) k = None" by (simp add: map_of_eq_None_iff)
  then have "LRUCacheSimple_get k t = Inr (- 1, t)" by (simp add: LRUCacheSimple_get_def)
  moreover have "LRUCache_get k s = Inr (- 1, s)" using None by (simp add: LRUCache_get_def)
  ultimately show ?thesis using sim
    by (intro exI[of _ "- 1"] exI[of _ s] exI[of _ t] exI[of _ as] conjI) simp_all
next
  case (Some a)
  have inv: "lru_inv s as" using sim by (simp add: lru_sim_def)
  let ?h = "lru_heap s"
  from inv_lookup[OF inv] Some have ain: "a \<in> set as" and ka: "node_key (?h a) = k" by auto
  from ain obtain xs ys where as: "as = xs @ a # ys" by (auto dest: split_list)
  have ch: "chain ?h (lru_head s) (xs @ a # ys) (lru_tail s)"
    and d: "distinct (lru_head s # xs @ a # ys @ [lru_tail s])"
    using inv as by (simp_all add: lru_inv_def)
  from move_to_head_ok[OF ch d] obtain h' where
    m: "move_to_head a s = Inr (s\<lparr>lru_heap := h'\<rparr>)"
    and c': "chain h' (lru_head s) (a # xs @ ys) (lru_tail s)"
    and skv: "same_kv ?h h'" by blast
  let ?s' = "s\<lparr>lru_heap := h'\<rparr>"
  let ?v = "node_value (?h a)"
  have g1: "LRUCache_get k s = Inr (?v, ?s')"
    using Some m skv by (simp add: LRUCache_get_def same_kv_def)
  have inv': "lru_inv ?s' (a # xs @ ys)"
    by (rule inv_move) (use inv as c' skv in \<open>auto simp: same_kv_def\<close>)
  let ?X = "rev (map (kv ?h) xs)" and ?Y = "rev (map (kv ?h) ys)"
  have dsplit: "simple_cache t = ?Y @ (k, ?v) # ?X"
    using sim as ka by (simp add: lru_sim_def kv_def)
  have dk: "distinct (map fst (?Y @ (k, ?v) # ?X))"
    unfolding dsplit[symmetric] using inv_keys_distinct[OF inv] sim
    by (simp only: lru_sim_def distinct_keys_rev)
  have mte: "move_to_end k (simple_cache t) = Inr (?Y @ ?X @ [(k, ?v)])"
    unfolding dsplit by (rule move_to_end_split[OF dk])
  have knot: "k \<notin> fst ` set (?Y @ ?X)" using dk by auto
  have look: "map_of (?Y @ ?X @ [(k, ?v)]) k = Some ?v"
    using map_of_snoc[OF knot] by simp
  have present: "map_of (simple_cache t) k \<noteq> None"
    unfolding dsplit using map_of_split[OF dk] by simp
  let ?t' = "t\<lparr>simple_cache := ?Y @ ?X @ [(k, ?v)]\<rparr>"
  have g2: "LRUCacheSimple_get k t = Inr (?v, ?t')"
    unfolding LRUCacheSimple_get_def
    by (simp only: if_not_P[OF present] mte look sum.case option.case)
  have "lru_sim ?s' ?t' (a # xs @ ys)"
    using inv' sim as ka same_kv_kv[OF skv] by (simp add: lru_sim_def kv_def)
  then show ?thesis using g1 g2
    by (intro exI[of _ ?v] exI[of _ ?s'] exI[of _ ?t'] exI[of _ "a # xs @ ys"] conjI) simp_all
qed

lemma insert_new_ok:
  assumes inv: "lru_inv s as" and absent: "map_of (lru_cache s) k = None"
  shows "\<exists>s'. add_to_head (lru_fresh s)
                 (s\<lparr>lru_heap := (lru_heap s)(lru_fresh s := ListNode_init k v),
                    lru_fresh := Suc (lru_fresh s),
                    lru_cache := AList.update k (lru_fresh s) (lru_cache s)\<rparr>) = Inr s' \<and>
              lru_inv s' (lru_fresh s # as) \<and>
              map (kv (lru_heap s')) (lru_fresh s # as) = (k, v) # map (kv (lru_heap s)) as \<and>
              lru_capacity s' = lru_capacity s"
proof -
  let ?f = "lru_fresh s"
  let ?h0 = "(lru_heap s)(?f := ListNode_init k v)"
  let ?s0 = "s\<lparr>lru_heap := ?h0, lru_fresh := Suc ?f,
               lru_cache := AList.update k ?f (lru_cache s)\<rparr>"
  let ?L = "lru_head s # as @ [lru_tail s]"
  have fresh: "?f \<notin> set ?L" using inv by (auto simp: lru_inv_def)
  have d: "distinct ?L" using inv by (simp add: lru_inv_def)
  have "chain ?h0 (lru_head s) as (lru_tail s) = chain (lru_heap s) (lru_head s) as (lru_tail s)"
    by (rule chain_frame) (use fresh in auto)
  then have ch0: "chain (lru_heap ?s0) (lru_head ?s0) as (lru_tail ?s0)"
    using inv by (simp add: lru_inv_def)
  have d0: "distinct (lru_head ?s0 # as @ [lru_tail ?s0])" using d by simp
  have f0: "?f \<notin> set (lru_head ?s0 # as @ [lru_tail ?s0])" using fresh by simp
  from add_to_head_ok[OF ch0 d0 f0] obtain h' where
    a: "add_to_head ?f ?s0 = Inr (?s0\<lparr>lru_heap := h'\<rparr>)"
    and c': "chain h' (lru_head s) (?f # as) (lru_tail s)"
    and skv: "same_kv ?h0 h'" by auto
  let ?s' = "?s0\<lparr>lru_heap := h'\<rparr>"
  have keys: "\<And>b. node_key (h' b) = (if b = ?f then k else node_key (lru_heap s b))"
    and vals: "\<And>b. node_value (h' b) = (if b = ?f then v else node_value (lru_heap s b))"
    using skv by (simp_all add: same_kv_def ListNode_init_def)
  have knot: "k \<notin> fst ` set (lru_cache s)" using absent by (simp add: map_of_eq_None_iff)
  have upd: "AList.update k ?f (lru_cache s) = lru_cache s @ [(k, ?f)]"
    by (rule update_absent[OF knot])
  have fas: "?f \<notin> set as" using fresh by simp
  have setc: "set (lru_cache ?s') = (\<lambda>a. (node_key (h' a), a)) ` set (?f # as)"
  proof -
    have "(\<lambda>a. (node_key (h' a), a)) ` set as = (\<lambda>a. (node_key (lru_heap s a), a)) ` set as"
      by (rule image_cong) (use fas keys in auto)
    then show ?thesis using inv keys by (simp add: upd lru_inv_def)
  qed
  have dist: "distinct (map fst (lru_cache ?s'))"
    using inv by (simp add: lru_inv_def distinct_update)
  have lt: "\<forall>a\<in>set (lru_head ?s' # (?f # as) @ [lru_tail ?s']). a < lru_fresh ?s'"
    using inv by (auto simp: lru_inv_def less_Suc_eq)
  have dist2: "distinct (lru_head ?s' # (?f # as) @ [lru_tail ?s'])"
    using d fresh by auto
  have inv': "lru_inv ?s' (?f # as)"
    unfolding lru_inv_def using c' dist2 lt dist setc by simp
  have "map (kv h') as = map (kv (lru_heap s)) as"
    by (rule map_cong) (use fas keys vals in \<open>auto simp: kv_def\<close>)
  then have kvs: "map (kv (lru_heap ?s')) (?f # as) = (k, v) # map (kv (lru_heap s)) as"
    using keys vals by (simp add: kv_def)
  show ?thesis using a inv' kvs by auto
qed

lemma evict_ok:
  assumes inv: "lru_inv s (xs @ [l])"
  shows "\<exists>h'. pop_tail s = Inr (l, s\<lparr>lru_heap := h'\<rparr>) \<and>
           dict_del (node_key (h' l)) (lru_cache s) =
             Inr (AList.delete (node_key (lru_heap s l)) (lru_cache s)) \<and>
           lru_inv (s\<lparr>lru_heap := h', lru_cache := AList.delete (node_key (lru_heap s l)) (lru_cache s)\<rparr>) xs \<and>
           same_kv (lru_heap s) h'"
proof -
  let ?h = "lru_heap s"
  have ch: "chain ?h (lru_head s) (xs @ l # []) (lru_tail s)"
    and d: "distinct (lru_head s # xs @ l # [] @ [lru_tail s])"
    using inv by (simp_all add: lru_inv_def)
  have tp: "node_prev (?h (lru_tail s)) = Some l"
    using chain_last[OF ch] by simp
  from remove_node_ok[OF ch d] obtain h' where
    r: "remove_node l s = Inr (s\<lparr>lru_heap := h'\<rparr>)"
    and c': "chain h' (lru_head s) xs (lru_tail s)" and skv: "same_kv ?h h'" by auto
  have pt: "pop_tail s = Inr (l, s\<lparr>lru_heap := h'\<rparr>)"
    using tp r by (simp add: pop_tail_def)
  let ?kl = "node_key (?h l)"
  have kl: "node_key (h' l) = ?kl" using skv by (simp add: same_kv_def)
  have "map_of (lru_cache s) ?kl = Some l" using inv_lookup[OF inv] by simp
  then have dd: "dict_del (node_key (h' l)) (lru_cache s) = Inr (AList.delete ?kl (lru_cache s))"
    by (simp add: dict_del_def kl)
  let ?s2 = "s\<lparr>lru_heap := h', lru_cache := AList.delete ?kl (lru_cache s)\<rparr>"
  have kd: "distinct (map fst (map (kv ?h) (xs @ [l])))" by (rule inv_keys_distinct[OF inv])
  have knot: "\<forall>a\<in>set xs. node_key (?h a) \<noteq> ?kl"
    using kd by (auto simp: kv_def image_iff)
  have lx: "l \<notin> set xs" using d by auto
  have "set (AList.delete ?kl (lru_cache s)) = {p \<in> set (lru_cache s). fst p \<noteq> ?kl}"
    by (auto simp: AList.delete_eq)
  also have "\<dots> = (\<lambda>a. (node_key (?h a), a)) ` set xs"
    using inv knot by (auto simp: lru_inv_def)
  also have "\<dots> = (\<lambda>a. (node_key (h' a), a)) ` set xs"
    using skv by (simp add: same_kv_def)
  finally have setc: "set (lru_cache ?s2) = (\<lambda>a. (node_key (lru_heap ?s2 a), a)) ` set xs"
    by simp
  have "lru_inv ?s2 xs"
    unfolding lru_inv_def using c' d inv setc
    by (auto simp: lru_inv_def distinct_delete)
  then show ?thesis using pt dd skv by blast
qed

lemma chain_set_value [simp]: "chain (set_value a v h) p as t = chain h p as t"
  by (rule chain_frame) auto

lemma put_present:
  assumes inv: "lru_inv s (xs @ a # ys)" and ka: "node_key (lru_heap s a) = k"
  shows "\<exists>s'. LRUCache_put k v s = Inr s' \<and> lru_inv s' (a # xs @ ys) \<and>
           map (kv (lru_heap s')) (a # xs @ ys) = (k, v) # map (kv (lru_heap s)) (xs @ ys) \<and>
           lru_capacity s' = lru_capacity s"
proof -
  let ?h = "lru_heap s"
  let ?s0 = "s\<lparr>lru_heap := set_value a v ?h\<rparr>"
  have look: "map_of (lru_cache s) k = Some a" using inv_lookup[OF inv] ka by simp
  have ch: "chain (lru_heap ?s0) (lru_head ?s0) (xs @ a # ys) (lru_tail ?s0)"
    and d: "distinct (lru_head ?s0 # xs @ a # ys @ [lru_tail ?s0])"
    using inv by (simp_all add: lru_inv_def)
  from move_to_head_ok[OF ch d] obtain h' where
    m: "move_to_head a ?s0 = Inr (?s0\<lparr>lru_heap := h'\<rparr>)"
    and c': "chain h' (lru_head s) (a # xs @ ys) (lru_tail s)"
    and skv: "same_kv (set_value a v ?h) h'" by auto
  let ?s' = "s\<lparr>lru_heap := h'\<rparr>"
  have p: "LRUCache_put k v s = Inr ?s'" using look m by (simp add: LRUCache_put_def)
  have keys: "\<forall>b. node_key (h' b) = node_key (?h b)"
    and vals: "\<And>b. node_value (h' b) = (if b = a then v else node_value (?h b))"
    using skv by (simp_all add: same_kv_def)
  have inv': "lru_inv ?s' (a # xs @ ys)" by (rule inv_move[OF inv c' keys])
  have an: "a \<notin> set (xs @ ys)" using inv by (auto simp: lru_inv_def)
  have "map (kv h') (xs @ ys) = map (kv ?h) (xs @ ys)"
    by (rule map_cong) (use an keys vals in \<open>auto simp: kv_def\<close>)
  then have "map (kv (lru_heap ?s')) (a # xs @ ys) = (k, v) # map (kv ?h) (xs @ ys)"
    using keys vals ka by (simp add: kv_def)
  then show ?thesis using p inv' by auto
qed

lemma put_room:
  assumes inv: "lru_inv s as" and absent: "map_of (lru_cache s) k = None"
    and room: "int (length as) < lru_capacity s"
  shows "\<exists>s'. LRUCache_put k v s = Inr s' \<and> lru_inv s' (lru_fresh s # as) \<and>
           map (kv (lru_heap s')) (lru_fresh s # as) = (k, v) # map (kv (lru_heap s)) as \<and>
           lru_capacity s' = lru_capacity s"
proof -
  have len: "\<not> lru_capacity s \<le> int (length (lru_cache s))"
    using room inv_length[OF inv] by simp
  from insert_new_ok[OF inv absent, of v] obtain s' where
    a: "add_to_head (lru_fresh s)
          (s\<lparr>lru_heap := (lru_heap s)(lru_fresh s := ListNode_init k v),
             lru_fresh := Suc (lru_fresh s),
             lru_cache := AList.update k (lru_fresh s) (lru_cache s)\<rparr>) = Inr s'"
    and r: "lru_inv s' (lru_fresh s # as)"
      "map (kv (lru_heap s')) (lru_fresh s # as) = (k, v) # map (kv (lru_heap s)) as"
      "lru_capacity s' = lru_capacity s" by (elim exE conjE)
  have "LRUCache_put k v s = Inr s'"
    using absent len a by (simp add: LRUCache_put_def Let_def)
  then show ?thesis using r by (intro exI[of _ s'] conjI)
qed

lemma put_full:
  assumes inv: "lru_inv s (xs @ [l])" and absent: "map_of (lru_cache s) k = None"
    and full: "lru_capacity s \<le> int (length (xs @ [l]))"
  shows "\<exists>s'. LRUCache_put k v s = Inr s' \<and> lru_inv s' (lru_fresh s # xs) \<and>
           map (kv (lru_heap s')) (lru_fresh s # xs) = (k, v) # map (kv (lru_heap s)) xs \<and>
           lru_capacity s' = lru_capacity s"
proof -
  have len: "lru_capacity s \<le> int (length (lru_cache s))"
    using full inv_length[OF inv] by simp
  let ?kl = "node_key (lru_heap s l)"
  from evict_ok[OF inv] obtain h1 where
    pt: "pop_tail s = Inr (l, s\<lparr>lru_heap := h1\<rparr>)"
    and dd: "dict_del (node_key (h1 l)) (lru_cache s) = Inr (AList.delete ?kl (lru_cache s))"
    and inv2: "lru_inv (s\<lparr>lru_heap := h1, lru_cache := AList.delete ?kl (lru_cache s)\<rparr>) xs"
    and skv: "same_kv (lru_heap s) h1" by blast
  let ?s2 = "s\<lparr>lru_heap := h1, lru_cache := AList.delete ?kl (lru_cache s)\<rparr>"
  have absent2: "map_of (lru_cache ?s2) k = None"
    using absent by (simp add: delete_conv')
  from insert_new_ok[OF inv2 absent2, of v] obtain s' where
    a: "add_to_head (lru_fresh ?s2)
          (?s2\<lparr>lru_heap := (lru_heap ?s2)(lru_fresh ?s2 := ListNode_init k v),
             lru_fresh := Suc (lru_fresh ?s2),
             lru_cache := AList.update k (lru_fresh ?s2) (lru_cache ?s2)\<rparr>) = Inr s'"
    and r: "lru_inv s' (lru_fresh ?s2 # xs)"
      "map (kv (lru_heap s')) (lru_fresh ?s2 # xs) = (k, v) # map (kv (lru_heap ?s2)) xs"
      "lru_capacity s' = lru_capacity ?s2" by (elim exE conjE)
  have "LRUCache_put k v s = Inr s'"
    using absent len pt dd a by (simp add: LRUCache_put_def Let_def)
  moreover have "map (kv (lru_heap ?s2)) xs = map (kv (lru_heap s)) xs"
    using same_kv_kv[OF skv] by simp
  ultimately show ?thesis using r by (intro exI[of _ s'] conjI) simp_all
qed

lemma simple_get_eq:
  "LRUCacheSimple_get k t =
     (case map_of (simple_cache t) k of
        None \<Rightarrow> Inr (- 1, t)
      | Some w \<Rightarrow> Inr (w, t\<lparr>simple_cache := AList.delete k (simple_cache t) @ [(k, w)]\<rparr>))"
proof (cases "map_of (simple_cache t) k")
  case None
  then show ?thesis by (simp add: LRUCacheSimple_get_def)
next
  case (Some w)
  have "k \<notin> fst ` set (AList.delete k (simple_cache t))" by (rule delete_notin_dom)
  then have "map_of (AList.delete k (simple_cache t) @ [(k, w)]) k = Some w"
    by (rule map_of_snoc)
  then show ?thesis using Some
    by (simp add: LRUCacheSimple_get_def move_to_end_def del: map_of_append)
qed

lemma simple_put_eq:
  "LRUCacheSimple_put k v t =
     Inr (t\<lparr>simple_cache := simple_put_list (simple_capacity t) k v (simple_cache t)\<rparr>)"
proof -
  let ?d = "simple_cache t"
  let ?d1 = "AList.delete k ?d @ [(k, v)]"
  have kn: "k \<notin> fst ` set (AList.delete k ?d)" by (rule delete_notin_dom)
  have pop: "popitem_first ?d1 = Inr (hd ?d1, tl ?d1)"
    by (cases "AList.delete k ?d") (simp_all add: popitem_first_def)
  show ?thesis
  proof (cases "map_of ?d k")
    case None
    then have "k \<notin> fst ` set ?d" by (simp add: map_of_eq_None_iff)
    then have "AList.delete k ?d = ?d" and "AList.update k v ?d = ?d @ [(k, v)]"
      by (simp_all add: update_absent)
    then show ?thesis using None pop
      by (simp add: LRUCacheSimple_put_def simple_put_list_def Let_def)
  next
    case (Some w)
    have "AList.update k v (AList.delete k ?d @ [(k, w)]) = ?d1"
      by (rule update_last_entry[OF kn])
    then show ?thesis using Some pop
      by (simp add: LRUCacheSimple_put_def simple_put_list_def move_to_end_def Let_def)
  qed
qed

lemma sim_put:
  assumes sim: "lru_sim s t as" and cap: "1 \<le> lru_capacity s"
  shows "\<exists>s' t' as'. LRUCache_put k v s = Inr s' \<and> LRUCacheSimple_put k v t = Inr t' \<and>
           lru_sim s' t' as' \<and> lru_capacity s' = lru_capacity s"
proof -
  have inv: "lru_inv s as" and dt: "simple_cache t = rev (map (kv (lru_heap s)) as)"
    and ct: "simple_capacity t = lru_capacity s" and len: "int (length as) \<le> lru_capacity s"
    using sim by (simp_all add: lru_sim_def)
  let ?h = "lru_heap s"
  let ?t' = "t\<lparr>simple_cache := simple_put_list (simple_capacity t) k v (simple_cache t)\<rparr>"
  have tp: "LRUCacheSimple_put k v t = Inr ?t'" by (rule simple_put_eq)
  have kd: "distinct (map fst (rev (map (kv ?h) as)))"
    using inv_keys_distinct[OF inv] by (simp only: distinct_keys_rev)
  show ?thesis
  proof (cases "map_of (lru_cache s) k")
    case (Some a)
    from inv_lookup[OF inv] Some have ain: "a \<in> set as" and ka: "node_key (?h a) = k" by auto
    from ain obtain xs ys where as: "as = xs @ a # ys" by (auto dest: split_list)
    from put_present[OF inv[unfolded as] ka, of v] obtain s' where
      p: "LRUCache_put k v s = Inr s'" and inv': "lru_inv s' (a # xs @ ys)"
      and kvs: "map (kv (lru_heap s')) (a # xs @ ys) = (k, v) # map (kv ?h) (xs @ ys)"
      and c': "lru_capacity s' = lru_capacity s" by (elim exE conjE)
    let ?X = "rev (map (kv ?h) xs)" and ?Y = "rev (map (kv ?h) ys)"
    have dsplit: "simple_cache t = ?Y @ (k, node_value (?h a)) # ?X"
      using dt as ka by (simp add: kv_def)
    have del: "AList.delete k (simple_cache t) = ?Y @ ?X"
      unfolding dsplit by (rule delete_split) (use kd dt dsplit in simp)
    have "simple_put_list (simple_capacity t) k v (simple_cache t) = ?Y @ ?X @ [(k, v)]"
      using len ct as by (simp add: simple_put_list_def del)
    also have "\<dots> = rev (map (kv (lru_heap s')) (a # xs @ ys))"
      unfolding kvs by simp
    finally have "lru_sim s' ?t' (a # xs @ ys)"
      using inv' c' ct len as by (simp add: lru_sim_def)
    then show ?thesis using p tp c' by (intro exI[of _ s'] exI[of _ ?t'] exI[of _ "a # xs @ ys"] conjI)
  next
    case None
    have "k \<notin> fst ` set (simple_cache t)"
      using inv_lookup_None[OF inv, of k] None dt by simp
    then have del: "AList.delete k (simple_cache t) = simple_cache t" by simp
    have lenc: "length (simple_cache t) = length as" using dt by simp
    show ?thesis
    proof (cases "int (length as) < lru_capacity s")
      case True
      from put_room[OF inv None True, of v] obtain s' where
        p: "LRUCache_put k v s = Inr s'" and inv': "lru_inv s' (lru_fresh s # as)"
        and kvs: "map (kv (lru_heap s')) (lru_fresh s # as) = (k, v) # map (kv ?h) as"
        and c': "lru_capacity s' = lru_capacity s" by (elim exE conjE)
      have "simple_put_list (simple_capacity t) k v (simple_cache t) = simple_cache t @ [(k, v)]"
        using True ct by (simp add: simple_put_list_def del lenc)
      also have "\<dots> = rev (map (kv (lru_heap s')) (lru_fresh s # as))"
        unfolding kvs dt by simp
      finally have "lru_sim s' ?t' (lru_fresh s # as)"
        using inv' c' ct True by (simp add: lru_sim_def)
      then show ?thesis using p tp c'
        by (intro exI[of _ s'] exI[of _ ?t'] exI[of _ "lru_fresh s # as"] conjI)
    next
      case False
      then have "as \<noteq> []" using cap by auto
      then obtain xs l where as: "as = xs @ [l]" by (cases as rule: rev_cases) auto
      have full: "lru_capacity s \<le> int (length (xs @ [l]))" using False as by simp
      from put_full[OF inv[unfolded as] None full, of v] obtain s' where
        p: "LRUCache_put k v s = Inr s'" and inv': "lru_inv s' (lru_fresh s # xs)"
        and kvs: "map (kv (lru_heap s')) (lru_fresh s # xs) = (k, v) # map (kv ?h) xs"
        and c': "lru_capacity s' = lru_capacity s" by (elim exE conjE)
      have "simple_put_list (simple_capacity t) k v (simple_cache t) =
              tl (simple_cache t @ [(k, v)])"
        using False ct by (simp add: simple_put_list_def del lenc)
      also have "\<dots> = rev (map (kv ?h) xs) @ [(k, v)]"
        using dt as by simp
      also have "\<dots> = rev (map (kv (lru_heap s')) (lru_fresh s # xs))"
        unfolding kvs by simp
      finally have "lru_sim s' ?t' (lru_fresh s # xs)"
        using inv' c' ct len as by (simp add: lru_sim_def)
      then show ?thesis using p tp c'
        by (intro exI[of _ s'] exI[of _ ?t'] exI[of _ "lru_fresh s # xs"] conjI)
    qed
  qed
qed

lemma sim_run:
  "lru_sim s t as \<Longrightarrow> 1 \<le> lru_capacity s \<Longrightarrow>
   \<exists>vs s' t' as'. LRUCache_run ops s = Inr (vs, s') \<and> LRUCacheSimple_run ops t = Inr (vs, t') \<and>
      lru_sim s' t' as' \<and> lru_capacity s' = lru_capacity s"
proof (induction ops arbitrary: s t as)
  case Nil
  then show ?case by auto
next
  case (Cons x ops)
  show ?case
  proof (cases x)
    case (Get k)
    from sim_get[OF Cons.prems(1), of k] obtain v s1 t1 as1 where
      g: "LRUCache_get k s = Inr (v, s1)" "LRUCacheSimple_get k t = Inr (v, t1)"
      and sim1: "lru_sim s1 t1 as1" and c1: "lru_capacity s1 = lru_capacity s"
      by (elim exE conjE)
    from Cons.IH[OF sim1] Cons.prems(2) c1 obtain vs s' t' as' where
      r: "LRUCache_run ops s1 = Inr (vs, s')" "LRUCacheSimple_run ops t1 = Inr (vs, t')"
      and sim': "lru_sim s' t' as'" and c': "lru_capacity s' = lru_capacity s1"
      by auto
    show ?thesis using g r sim' c' c1 Get
      by (intro exI[of _ "v # vs"] exI[of _ s'] exI[of _ t'] exI[of _ as'] conjI) simp_all
  next
    case (Put k v)
    from sim_put[OF Cons.prems, of k v] obtain s1 t1 as1 where
      g: "LRUCache_put k v s = Inr s1" "LRUCacheSimple_put k v t = Inr t1"
      and sim1: "lru_sim s1 t1 as1" and c1: "lru_capacity s1 = lru_capacity s"
      by (elim exE conjE)
    from Cons.IH[OF sim1] Cons.prems(2) c1 obtain vs s' t' as' where
      r: "LRUCache_run ops s1 = Inr (vs, s')" "LRUCacheSimple_run ops t1 = Inr (vs, t')"
      and sim': "lru_sim s' t' as'" and c': "lru_capacity s' = lru_capacity s1"
      by auto
    show ?thesis using g r sim' c' c1 Put
      by (intro exI[of _ vs] exI[of _ s'] exI[of _ t'] exI[of _ as'] conjI) simp_all
  qed
qed

lemma init_sim:
  "0 \<le> c \<Longrightarrow> LRUCache_init c = Inr s \<Longrightarrow> LRUCacheSimple_init c = Inr t \<Longrightarrow> lru_sim s t []"
  by (auto simp: LRUCache_init_def LRUCacheSimple_init_def lru_sim_def lru_inv_def)

lemma prog_sim:
  assumes "1 \<le> c"
  shows "\<exists>vs s t as. LRUCache_prog c ops = Inr (vs, s) \<and> LRUCacheSimple_prog c ops = Inr (vs, t) \<and>
           lru_sim s t as \<and> lru_capacity s = c"
proof -
  obtain s0 where s0: "LRUCache_init c = Inr s0" and c0: "lru_capacity s0 = c"
    by (simp add: LRUCache_init_def)
  obtain t0 where t0: "LRUCacheSimple_init c = Inr t0" by (simp add: LRUCacheSimple_init_def)
  have sim0: "lru_sim s0 t0 []" by (rule init_sim[OF _ s0 t0]) (use assms in simp)
  from sim_run[OF sim0, of ops] assms c0 obtain vs s t as where
    "LRUCache_run ops s0 = Inr (vs, s)" "LRUCacheSimple_run ops t0 = Inr (vs, t)"
    "lru_sim s t as" "lru_capacity s = lru_capacity s0" by auto
  then show ?thesis using s0 t0 c0
    by (intro exI[of _ vs] exI[of _ s] exI[of _ t] exI[of _ as] conjI)
       (simp_all add: LRUCache_prog_def LRUCacheSimple_prog_def)
qed

section \<open>The two LRU implementations\<close>

text \<open>
  Claim C9: for every capacity of at least 1 and every finite sequence of \<open>get\<close> and
  \<open>put\<close> calls, LRUCache and LRUCacheSimple both run to the end without raising and
  return the same result from every \<open>get\<close>.
\<close>

theorem LRUCache_LRUCacheSimple_equivalent:
  "1 \<le> c \<Longrightarrow>
   \<exists>vs s t. LRUCache_prog c ops = Inr (vs, s) \<and> LRUCacheSimple_prog c ops = Inr (vs, t)"
  using prog_sim[of c ops] by blast

theorem LRUCache_LRUCacheSimple_equivalent_witness:
  "(1::int) \<le> 2 \<and>
   (\<exists>vs s t. LRUCache_prog 2 [Put 1 1, Put 2 2, Get 1, Put 3 3, Get 2] = Inr (vs, s) \<and>
      LRUCacheSimple_prog 2 [Put 1 1, Put 2 2, Get 1, Put 3 3, Get 2] = Inr (vs, t))"
  using LRUCache_LRUCacheSimple_equivalent [of 2 "[Put 1 1, Put 2 2, Get 1, Put 3 3, Get 2]"]
  by simp

end
